theory Spec2Isabelle
  imports Main "HOL-Library.Word"
begin

unbundle bit_operations_syntax

section \<open>Data model of crypto/rabbit\<close>

type_synonym u32 = "32 word"
type_synonym byte = "8 word"

text \<open>
  A Go value of type \<open>[8]uint32\<close>: exactly eight words, copied by value. Indexing is
  written \<open>idx a i\<close> and an element assignment \<open>upd a i v\<close>. Every index of the source
  is a constant in 0..7, the variable of a \<open>range\<close> loop over such an array, or masked
  with \<open>&0x7\<close>, so an index of 8 or more never reaches these functions; there \<open>idx\<close>
  yields the last word and \<open>upd\<close> changes nothing.
\<close>

datatype arr8 = Arr8 u32 u32 u32 u32 u32 u32 u32 u32

fun idx :: "arr8 \<Rightarrow> nat \<Rightarrow> u32" where
  "idx (Arr8 a0 a1 a2 a3 a4 a5 a6 a7) i =
     (if i = 0 then a0 else if i = 1 then a1 else if i = 2 then a2 else if i = 3 then a3
      else if i = 4 then a4 else if i = 5 then a5 else if i = 6 then a6 else a7)"

fun upd :: "arr8 \<Rightarrow> nat \<Rightarrow> u32 \<Rightarrow> arr8" where
  "upd (Arr8 a0 a1 a2 a3 a4 a5 a6 a7) i v =
     (if i = 0 then Arr8 v a1 a2 a3 a4 a5 a6 a7
      else if i = 1 then Arr8 a0 v a2 a3 a4 a5 a6 a7
      else if i = 2 then Arr8 a0 a1 v a3 a4 a5 a6 a7
      else if i = 3 then Arr8 a0 a1 a2 v a4 a5 a6 a7
      else if i = 4 then Arr8 a0 a1 a2 a3 v a5 a6 a7
      else if i = 5 then Arr8 a0 a1 a2 a3 a4 v a6 a7
      else if i = 6 then Arr8 a0 a1 a2 a3 a4 a5 v a7
      else if i = 7 then Arr8 a0 a1 a2 a3 a4 a5 a6 v
      else Arr8 a0 a1 a2 a3 a4 a5 a6 a7)"

definition zero8 :: arr8 where
  "zero8 = Arr8 0 0 0 0 0 0 0 0"

text \<open>
  The struct \<open>Cipher\<close>: live state \<open>x\<close>, counter \<open>c\<close>, their master copies \<open>cx\<close>,
  \<open>cc\<close>, the carry flags, and the slice \<open>r\<close> of leftover keystream bytes (\<open>nil\<close> is
  the empty list: the source only ever takes its length and indexes it).
\<close>

record Cipher =
  x :: arr8
  c :: arr8
  cx :: arr8
  cc :: arr8
  carry :: bool
  ccarry :: bool
  r :: "byte list"

text \<open>\<open>KeySizeError{t, sz}\<close>: \<open>t = 1\<close> is a bad key size, \<open>t = 2\<close> a bad IV size.\<close>

datatype KeySizeError = KeySizeError int int

section \<open>Word helpers\<close>

text \<open>
  \<open>v<<n | v>>(32-n)\<close> on \<open>uint32\<close>. Go shifts an unsigned value by any count and
  gives 0 from 32 on, as \<open>push_bit\<close> and \<open>drop_bit\<close> do on a 32-bit word.
\<close>

definition rotl :: "u32 \<Rightarrow> u32 \<Rightarrow> u32" where
  "rotl v n = push_bit (unat n) v OR drop_bit (unat (32 - n)) v"

definition rabbitCalcG :: "u32 \<Rightarrow> u32" where
  "rabbitCalcG u =
     (let a = u AND 0xFFFF;
          b = drop_bit 16 u
      in (drop_bit 15 (drop_bit 17 (a * a) + a * b) + b * b) XOR (u * u))"

definition booltoi :: "bool \<Rightarrow> u32" where
  "booltoi b = (if b then 1 else 0)"

text \<open>
  The g-function as section 4.3 of the specification words it: split \<open>u\<close> into its low
  half \<open>a\<close> and high half \<open>b\<close>, \<open>s = a*a\<close>, \<open>t = ((s>>17) + a*b) >> 15\<close>, result
  \<open>(t + b*b) XOR (u*u)\<close>, all modulo \<open>2^32\<close>.
\<close>

definition spec_G :: "u32 \<Rightarrow> u32" where
  "spec_G u =
     (let a = take_bit 16 u;
          b = u div 2 ^ 16;
          s = a * a;
          t = (s div 2 ^ 17 + a * b) div 2 ^ 15
      in (t + b * b) XOR (u * u))"

section \<open>The next-state function\<close>

text \<open>
  \<open>rabbitNext\<close>: the counter words are advanced in the order 0..7, each carry-in being
  the comparison of the word just computed with its value before the round; then the
  eight g-values are taken from the old \<open>x\<close> and the new counter, and \<open>x\<close> is rebuilt
  from them.
\<close>

definition rabbitNext :: "Cipher \<Rightarrow> Cipher" where
  "rabbitNext s =
     (let c0 = idx (c s) 0 + 0x4D34D34D + booltoi (carry s);
          c1 = idx (c s) 1 + 0xD34D34D3 + booltoi (c0 < idx (c s) 0);
          c2 = idx (c s) 2 + 0x34D34D34 + booltoi (c1 < idx (c s) 1);
          c3 = idx (c s) 3 + 0x4D34D34D + booltoi (c2 < idx (c s) 2);
          c4 = idx (c s) 4 + 0xD34D34D3 + booltoi (c3 < idx (c s) 3);
          c5 = idx (c s) 5 + 0x34D34D34 + booltoi (c4 < idx (c s) 4);
          c6 = idx (c s) 6 + 0x4D34D34D + booltoi (c5 < idx (c s) 5);
          c7 = idx (c s) 7 + 0xD34D34D3 + booltoi (c6 < idx (c s) 6);
          g0 = rabbitCalcG (idx (x s) 0 + c0);
          g1 = rabbitCalcG (idx (x s) 1 + c1);
          g2 = rabbitCalcG (idx (x s) 2 + c2);
          g3 = rabbitCalcG (idx (x s) 3 + c3);
          g4 = rabbitCalcG (idx (x s) 4 + c4);
          g5 = rabbitCalcG (idx (x s) 5 + c5);
          g6 = rabbitCalcG (idx (x s) 6 + c6);
          g7 = rabbitCalcG (idx (x s) 7 + c7)
      in s\<lparr>carry := (c7 < idx (c s) 7),
            x := Arr8 (g0 + rotl g7 16 + rotl g6 16)
                      (g1 + rotl g0 8 + g7)
                      (g2 + rotl g1 16 + rotl g0 16)
                      (g3 + rotl g2 8 + g1)
                      (g4 + rotl g3 16 + rotl g2 16)
                      (g5 + rotl g4 8 + g3)
                      (g6 + rotl g5 16 + rotl g4 16)
                      (g7 + rotl g6 8 + g5),
            c := Arr8 c0 c1 c2 c3 c4 c5 c6 c7\<rparr>)"

text \<open>The four output words of a round, as \<open>rabbitGen\<close> and \<open>ProcessStream\<close> compute them.\<close>

definition o0 :: "Cipher \<Rightarrow> u32" where
  "o0 s = idx (x s) 0 XOR (drop_bit 16 (idx (x s) 5) XOR push_bit 16 (idx (x s) 3))"

definition o1 :: "Cipher \<Rightarrow> u32" where
  "o1 s = idx (x s) 2 XOR (drop_bit 16 (idx (x s) 7) XOR push_bit 16 (idx (x s) 5))"

definition o2 :: "Cipher \<Rightarrow> u32" where
  "o2 s = idx (x s) 4 XOR (drop_bit 16 (idx (x s) 1) XOR push_bit 16 (idx (x s) 7))"

definition o3 :: "Cipher \<Rightarrow> u32" where
  "o3 s = idx (x s) 6 XOR (drop_bit 16 (idx (x s) 3) XOR push_bit 16 (idx (x s) 1))"

text \<open>\<open>byte(d), byte(d>>8), byte(d>>16), byte(d>>24)\<close>: a word, low byte first.\<close>

definition le_bytes :: "u32 \<Rightarrow> byte list" where
  "le_bytes d = [ucast d, ucast (drop_bit 8 d), ucast (drop_bit 16 d), ucast (drop_bit 24 d)]"

definition block :: "Cipher \<Rightarrow> byte list" where
  "block s = le_bytes (o0 s) @ le_bytes (o1 s) @ le_bytes (o2 s) @ le_bytes (o3 s)"

text \<open>\<open>rabbitGen\<close> advances one round and fills a 16-byte array with the block.\<close>

definition rabbitGen :: "Cipher \<Rightarrow> Cipher \<times> byte list" where
  "rabbitGen s = (let s1 = rabbitNext s in (s1, block s1))"

section \<open>Key schedule and IV setup\<close>

text \<open>\<open>uint32(b0) | uint32(b1)<<8 | uint32(b2)<<16 | uint32(b3)<<24\<close>.\<close>

definition le_word :: "byte \<Rightarrow> byte \<Rightarrow> byte \<Rightarrow> byte \<Rightarrow> u32" where
  "le_word b0 b1 b2 b3 =
     ucast b0 OR push_bit 8 (ucast b1) OR push_bit 16 (ucast b2) OR push_bit 24 (ucast b3)"

text \<open>\<open>for i := 0; i < 4; i++ { c.rabbitNext() }\<close>.\<close>

definition warmup :: "Cipher \<Rightarrow> Cipher" where
  "warmup s = rabbitNext (rabbitNext (rabbitNext (rabbitNext s)))"

text \<open>The zero value of the struct, \<open>var c Cipher\<close>.\<close>

definition zero_Cipher :: Cipher where
  "zero_Cipher = \<lparr>x = zero8, c = zero8, cx = zero8, cc = zero8,
                   carry = False, ccarry = False, r = []\<rparr>"

definition NewCipher :: "byte list \<Rightarrow> KeySizeError + Cipher" where
  "NewCipher key =
     (let k = length key in
      if k \<noteq> 16 then Inl (KeySizeError 1 (int k))
      else
        let k0 = le_word (key ! 0) (key ! 1) (key ! 2) (key ! 3);
            k1 = le_word (key ! 4) (key ! 5) (key ! 6) (key ! 7);
            k2 = le_word (key ! 8) (key ! 9) (key ! 10) (key ! 11);
            k3 = le_word (key ! 12) (key ! 13) (key ! 14) (key ! 15);
            s0 = zero_Cipher
                   \<lparr>x := Arr8 k0 (push_bit 16 k3 OR drop_bit 16 k2)
                              k1 (push_bit 16 k0 OR drop_bit 16 k3)
                              k2 (push_bit 16 k1 OR drop_bit 16 k0)
                              k3 (push_bit 16 k2 OR drop_bit 16 k1),
                    c := Arr8 (rotl k2 16) ((k0 AND 0xFFFF0000) OR (k1 AND 0xFFFF))
                              (rotl k3 16) ((k1 AND 0xFFFF0000) OR (k2 AND 0xFFFF))
                              (rotl k0 16) ((k2 AND 0xFFFF0000) OR (k3 AND 0xFFFF))
                              (rotl k1 16) ((k3 AND 0xFFFF0000) OR (k0 AND 0xFFFF)),
                    carry := False\<rparr>;
            s1 = warmup s0;
            s2 = foldl (\<lambda>t i. t\<lparr>c := upd (c t) i (idx (c t) i XOR idx (x t) ((i + 4) mod 8))\<rparr>)
                       s1 [0..<8];
            s3 = foldl (\<lambda>t i. t\<lparr>cx := upd (cx t) i (idx (x t) i),
                                  cc := upd (cc t) i (idx (c t) i)\<rparr>)
                       s2 [0..<8]
        in Inr (s3\<lparr>ccarry := carry s3\<rparr>))"

text \<open>
  \<open>SetupIV\<close> works on the cipher in place and returns an error or \<open>nil\<close>: the model
  gives back the cipher as the call leaves it, and the error if there is one.
\<close>

definition SetupIV :: "Cipher \<Rightarrow> byte list \<Rightarrow> Cipher \<times> KeySizeError option" where
  "SetupIV s iv =
     (let k = length iv in
      if k \<noteq> 8 then (s, Some (KeySizeError 2 (int k)))
      else
        let d0 = le_word (iv ! 0) (iv ! 1) (iv ! 2) (iv ! 3);
            d2 = le_word (iv ! 4) (iv ! 5) (iv ! 6) (iv ! 7);
            d1 = drop_bit 16 d0 OR (d2 AND 0xFFFF0000);
            d3 = push_bit 16 d2 OR (d0 AND 0x0000FFFF);
            s1 = s\<lparr>c := Arr8 (idx (cc s) 0 XOR d0) (idx (cc s) 1 XOR d1)
                             (idx (cc s) 2 XOR d2) (idx (cc s) 3 XOR d3)
                             (idx (cc s) 4 XOR d0) (idx (cc s) 5 XOR d1)
                             (idx (cc s) 6 XOR d2) (idx (cc s) 7 XOR d3)\<rparr>;
            s2 = foldl (\<lambda>t i. t\<lparr>x := upd (x t) i (idx (cx t) i)\<rparr>) s1 [0..<8];
            s3 = s2\<lparr>carry := ccarry s2\<rparr>
        in (warmup s3, None))"

section \<open>Reset operations\<close>

definition ResetCipher :: "Cipher \<Rightarrow> Cipher" where
  "ResetCipher s =
     (let s1 = foldl (\<lambda>t i. t\<lparr>c := upd (c t) i (idx (cc t) i)\<rparr>) s [0..<8];
          s2 = foldl (\<lambda>t i. t\<lparr>x := upd (x t) i (idx (cx t) i)\<rparr>) s1 [0..<8]
      in s2\<lparr>carry := ccarry s2\<rparr>)"

text \<open>
  \<open>Reset\<close>: the loop zeroes the four arrays word by word; the last statement is
  \<open>c.carry, c.carry = false, false\<close>, two assignments to the same field.
\<close>

definition Reset :: "Cipher \<Rightarrow> Cipher" where
  "Reset s =
     (let s1 = foldl (\<lambda>t i. t\<lparr>x := upd (x t) i 0, c := upd (c t) i 0,
                                cx := upd (cx t) i 0, cc := upd (cc t) i 0\<rparr>)
                     s [0..<8]
      in s1\<lparr>carry := False, carry := False\<rparr>)"

section \<open>The stream processor\<close>

text \<open>
  Go checks every slice index and panics when it is out of range. The statement
  \<open>b[i] ^= v\<close> is \<open>xor_at b i v\<close>, and \<open>None\<close> is the panic; \<open>read_at\<close> is the
  read \<open>b[i]\<close>.
\<close>

definition read_at :: "byte list \<Rightarrow> nat \<Rightarrow> byte option" where
  "read_at b i = (if i < length b then Some (b ! i) else None)"

definition xor_at :: "byte list \<Rightarrow> nat \<Rightarrow> byte \<Rightarrow> byte list option" where
  "xor_at b i v = (if i < length b then Some (b[i := (b ! i) XOR v]) else None)"

text \<open>The statements \<open>buf[i+0] ^= v0; buf[i+1] ^= v1; ...\<close> one after the other.\<close>

fun xor_bytes :: "byte list \<Rightarrow> nat \<Rightarrow> byte list \<Rightarrow> byte list option" where
  "xor_bytes buf i [] = Some buf"
| "xor_bytes buf i (v # vs) =
     (case xor_at buf i v of None \<Rightarrow> None | Some buf' \<Rightarrow> xor_bytes buf' (i + 1) vs)"

text \<open>
  \<open>for ; i < m && i < l; i++ { buf[i] ^= c.r[i] }\<close>: the leftover bytes \<open>p\<close> of the
  last call go into the buffer first. The result is the buffer and the final \<open>i\<close>.
\<close>

function pending_loop :: "byte list \<Rightarrow> byte list \<Rightarrow> nat \<Rightarrow> nat \<Rightarrow> nat \<Rightarrow> (byte list \<times> nat) option" where
  "pending_loop buf p i m l =
     (if i < m \<and> i < l then
        (case read_at p i of
           None \<Rightarrow> None
         | Some v \<Rightarrow>
            (case xor_at buf i v of
               None \<Rightarrow> None
             | Some buf' \<Rightarrow> pending_loop buf' p (i + 1) m l))
      else Some (buf, i))"
  by pat_completeness auto
termination
  by (relation "measure (\<lambda>(buf, p, i, m, l). l - i)") auto

text \<open>
  The last, partial block. The loop variables are the cipher (for \<open>c.r\<close>), the buffer,
  \<open>i\<close>, \<open>l\<close> and the flag \<open>f\<close>; the slice variable \<open>b\<close> of the source is \<open>buf\<close>
  while \<open>f\<close> is false and \<open>c.r\<close> from the moment \<open>f\<close> is set, so a write through \<open>b\<close>
  goes to the one or the other. \<open>j\<close> and \<open>k\<close> stay below 4, so \<open>3 - j\<close> and
  \<open>3 - k\<close> are not negative. \<open>Return\<close> is the \<open>return\<close> statement inside the loop,
  \<open>Next\<close> the normal end of the loop.
\<close>

type_synonym tail_state = "Cipher \<times> byte list \<times> nat \<times> nat \<times> bool"

datatype flow = Next tail_state | Return tail_state

function inner_k :: "u32 \<Rightarrow> nat \<Rightarrow> nat \<Rightarrow> tail_state \<Rightarrow> flow option" where
  "inner_k z j k (s, buf, i, l, f) =
     (if k < 4 then
        (case (if f then xor_at (r s) i (ucast (drop_bit (k * 8) z))
               else xor_at buf i (ucast (drop_bit (k * 8) z))) of
           None \<Rightarrow> None
         | Some b' \<Rightarrow>
            (let s1 = (if f then s\<lparr>r := b'\<rparr> else s);
                 buf1 = (if f then buf else b');
                 i1 = i + 1
             in if f = False \<and> i1 \<ge> l then
                  (let l1 = (3 - j) * 4 + (3 - k)
                   in if l1 = 0 then Some (Return (s1, buf1, i1, l1, f))
                      else inner_k z j (k + 1) (s1\<lparr>r := replicate l1 0\<rparr>, buf1, 0, l1, True))
                else inner_k z j (k + 1) (s1, buf1, i1, l, f)))
      else Some (Next (s, buf, i, l, f)))"
  by pat_completeness auto
termination
  by (relation "measure (\<lambda>(z, j, k, st). 4 - k)") auto

function outer_j :: "nat \<Rightarrow> u32 \<Rightarrow> tail_state \<Rightarrow> flow option" where
  "outer_j j z (s, buf, i, l, f) =
     (if j < 4 then
        (case inner_k z j 0 (s, buf, i, l, f) of
           None \<Rightarrow> None
         | Some (Return st) \<Rightarrow> Some (Return st)
         | Some (Next (s', buf', i', l', f')) \<Rightarrow>
             outer_j (j + 1)
               (if j = 0 then o1 s' else if j = 1 then o2 s' else if j = 2 then o3 s' else z)
               (s', buf', i', l', f'))
      else Some (Next (s, buf, i, l, f)))"
  by pat_completeness auto
termination
  by (relation "measure (\<lambda>(j, z, st). 4 - j)") auto

subsection \<open>What the partial-block loops return\<close>

declare inner_k.simps [simp del] outer_j.simps [simp del]

lemma inner_k_done: "\<not> k < 4 \<Longrightarrow> inner_k z j k st = Some (Next st)"
  by (cases st) (simp add: inner_k.simps)

lemma inner_k_fill:
  "k < 4 \<Longrightarrow> inner_k z j k (s, buf, i, l, True) =
     (case xor_at (r s) i (ucast (drop_bit (k * 8) z)) of
        None \<Rightarrow> None
      | Some b' \<Rightarrow> inner_k z j (k + 1) (s\<lparr>r := b'\<rparr>, buf, i + 1, l, True))"
  by (subst inner_k.simps) (simp add: Let_def split: option.splits)

lemma inner_k_buf:
  "k < 4 \<Longrightarrow> inner_k z j k (s, buf, i, l, False) =
     (case xor_at buf i (ucast (drop_bit (k * 8) z)) of
        None \<Rightarrow> None
      | Some b' \<Rightarrow>
         if l \<le> i + 1 then
           (if (3 - j) * 4 + (3 - k) = 0 then Some (Return (s, b', i + 1, 0, False))
            else inner_k z j (k + 1)
                   (s\<lparr>r := replicate ((3 - j) * 4 + (3 - k)) 0\<rparr>, b', 0, (3 - j) * 4 + (3 - k), True))
         else inner_k z j (k + 1) (s, b', i + 1, l, False))"
  by (subst inner_k.simps) (simp add: Let_def split: option.splits)

lemma xor_at_Some:
  "xor_at b i v = Some b' \<Longrightarrow> length b' = length b \<and> i < length b \<and> take i b' = take i b"
  by (auto simp: xor_at_def split: if_splits)

lemma take_le_eq: "take n a = take n b \<Longrightarrow> i \<le> n \<Longrightarrow> take i a = take i b"
proof -
  assume eq: "take n a = take n b" and le: "i \<le> n"
  have "take i a = take i (take n a)" using le by (simp add: min_def)
  also have "\<dots> = take i (take n b)" using eq by simp
  also have "\<dots> = take i b" using le by (simp add: min_def)
  finally show ?thesis .
qed

lemma take_Suc_eq: "take (Suc i) a = take (Suc i) b \<Longrightarrow> take i a = take i b"
  by (rule take_le_eq [where n = "Suc i"]) simp_all

lemma inner_k_fill_Next:
  "inner_k z j k (s, buf, i, l, True) = Some (Next (s', buf', i', l', f')) \<Longrightarrow> k \<le> 4 \<Longrightarrow>
   f' \<and> l' = l \<and> i' = i + (4 - k) \<and> buf' = buf \<and> length (r s') = length (r s)
   \<and> s'\<lparr>r := []\<rparr> = s\<lparr>r := []\<rparr>"
proof (induction "4 - k" arbitrary: k s i)
  case 0
  then show ?case by (simp add: inner_k_done)
next
  case (Suc n)
  then have k: "k < 4" by simp
  from Suc.prems(1) obtain b' where
    b: "xor_at (r s) i (ucast (drop_bit (k * 8) z)) = Some b'" and
    rec: "inner_k z j (k + 1) (s\<lparr>r := b'\<rparr>, buf, i + 1, l, True) = Some (Next (s', buf', i', l', f'))"
    by (auto simp: inner_k_fill [OF k] split: option.splits)
  have "n = 4 - (k + 1)" using Suc.hyps(2) by simp
  from Suc.hyps(1) [OF this rec] k xor_at_Some [OF b]
  show ?case by simp
qed

lemma inner_k_fill_not_Return:
  "inner_k z j k (s, buf, i, l, True) \<noteq> Some (Return st)"
proof (induction "4 - k" arbitrary: k s i)
  case 0
  then show ?case by (simp add: inner_k_done)
next
  case (Suc n)
  then have k: "k < 4" by simp
  have "n = 4 - (k + 1)" using Suc.hyps(2) by simp
  from Suc.hyps(1) [OF this] show ?case
    by (simp add: inner_k_fill [OF k] split: option.splits)
qed

lemma inner_k_buf_Next:
  "inner_k z j k (s, buf, i, l, False) = Some (Next (s', buf', i', l', f')) \<Longrightarrow> j < 4 \<Longrightarrow> k \<le> 4 \<Longrightarrow>
   length buf' = length buf \<and> take i buf' = take i buf \<and> s'\<lparr>r := []\<rparr> = s\<lparr>r := []\<rparr> \<and>
   ((\<not> f' \<and> l' = l \<and> i' = i + (4 - k) \<and> (k < 4 \<longrightarrow> i' < l) \<and> r s' = r s)
    \<or> (f' \<and> i' + (12 - 4 * j) = l' \<and> l' < 16 \<and> length (r s') = l'))"
proof (induction "4 - k" arbitrary: k buf i)
  case 0
  then show ?case by (simp add: inner_k_done)
next
  case (Suc n)
  then have k: "k < 4" by simp
  have n: "n = 4 - (k + 1)" using Suc.hyps(2) by simp
  from Suc.prems(1) obtain b' where
    b: "xor_at buf i (ucast (drop_bit (k * 8) z)) = Some b'"
    by (auto simp: inner_k_buf [OF k] split: option.splits)
  note len = xor_at_Some [OF b]
  show ?case
  proof (cases "l \<le> i + 1")
    case True
    let ?l1 = "(3 - j) * 4 + (3 - k)"
    from Suc.prems(1) True b have nz: "?l1 \<noteq> 0"
      by (auto simp: inner_k_buf [OF k] split: if_splits)
    from Suc.prems(1) True b have
      rec: "inner_k z j (k + 1) (s\<lparr>r := replicate ?l1 0\<rparr>, b', 0, ?l1, True)
              = Some (Next (s', buf', i', l', f'))"
      by (auto simp: inner_k_buf [OF k] split: if_splits)
    from inner_k_fill_Next [OF rec] k \<open>j < 4\<close> len
    show ?thesis by auto
  next
    case False
    with Suc.prems(1) b have
      rec: "inner_k z j (k + 1) (s, b', i + 1, l, False) = Some (Next (s', buf', i', l', f'))"
      by (simp add: inner_k_buf [OF k])
    from Suc.hyps(1) [OF n rec \<open>j < 4\<close>] k len False
    show ?thesis by (auto dest: take_Suc_eq)
  qed
qed


lemma inner_k_buf_Return:
  "inner_k z j k (s, buf, i, l, False) = Some (Return (s', buf', i', l', f')) \<Longrightarrow>
   s' = s \<and> length buf' = length buf \<and> take i buf' = take i buf \<and> \<not> f'"
proof (induction "4 - k" arbitrary: k buf i)
  case 0
  then show ?case by (simp add: inner_k_done)
next
  case (Suc n)
  then have k: "k < 4" by simp
  have n: "n = 4 - (k + 1)" using Suc.hyps(2) by simp
  from Suc.prems(1) obtain b' where
    b: "xor_at buf i (ucast (drop_bit (k * 8) z)) = Some b'"
    by (auto simp: inner_k_buf [OF k] split: option.splits)
  note len = xor_at_Some [OF b]
  show ?case
  proof (cases "l \<le> i + 1")
    case True
    with Suc.prems(1) b len show ?thesis
      by (auto simp: inner_k_buf [OF k] inner_k_fill_not_Return split: if_splits)
  next
    case False
    with Suc.prems(1) b have
      rec: "inner_k z j (k + 1) (s, b', i + 1, l, False) = Some (Return (s', buf', i', l', f'))"
      by (simp add: inner_k_buf [OF k])
    from Suc.hyps(1) [OF n rec] len show ?thesis by (auto dest: take_Suc_eq)
  qed
qed

lemma outer_j_done: "\<not> j < 4 \<Longrightarrow> outer_j j z st = Some (Next st)"
  by (cases st) (simp add: outer_j.simps)

lemma outer_j_step:
  "j < 4 \<Longrightarrow> outer_j j z (s, buf, i, l, f) =
     (case inner_k z j 0 (s, buf, i, l, f) of
        None \<Rightarrow> None
      | Some (Return st) \<Rightarrow> Some (Return st)
      | Some (Next (s', buf', i', l', f')) \<Rightarrow>
          outer_j (j + 1)
            (if j = 0 then o1 s' else if j = 1 then o2 s' else if j = 2 then o3 s' else z)
            (s', buf', i', l', f'))"
  by (subst outer_j.simps) simp

lemma outer_j_fill_Next:
  "outer_j j z (s, buf, i, l, True) = Some (Next (s', buf', i', l', f')) \<Longrightarrow> j \<le> 4 \<Longrightarrow>
   f' \<and> l' = l \<and> i' = i + 4 * (4 - j) \<and> buf' = buf \<and> length (r s') = length (r s)
   \<and> s'\<lparr>r := []\<rparr> = s\<lparr>r := []\<rparr>"
proof (induction "4 - j" arbitrary: j z s i)
  case 0
  then show ?case by (simp add: outer_j_done)
next
  case (Suc n)
  then have j: "j < 4" by simp
  have n: "n = 4 - (j + 1)" using Suc.hyps(2) by simp
  from Suc.prems(1) obtain s1 buf1 i1 l1 f1 z1 where
    inner: "inner_k z j 0 (s, buf, i, l, True) = Some (Next (s1, buf1, i1, l1, f1))" and
    rec0: "outer_j (j + 1) z1 (s1, buf1, i1, l1, f1) = Some (Next (s', buf', i', l', f'))"
    by (auto simp: outer_j_step [OF j] split: option.splits flow.splits)
  from inner_k_fill_Next [OF inner] have
    s1: "f1" "l1 = l" "i1 = i + 4" "buf1 = buf" "length (r s1) = length (r s)"
        "s1\<lparr>r := []\<rparr> = s\<lparr>r := []\<rparr>"
    by simp_all
  from rec0 s1 have rec: "outer_j (j + 1) z1 (s1, buf, i + 4, l, True) = Some (Next (s', buf', i', l', f'))"
    by simp
  from Suc.hyps(1) [OF n rec] j s1 show ?case by simp
qed

lemma outer_j_fill_not_Return:
  "outer_j j z (s, buf, i, l, True) \<noteq> Some (Return st)"
proof (induction "4 - j" arbitrary: j z s i buf l)
  case 0
  then show ?case by (simp add: outer_j_done)
next
  case (Suc n)
  then have j: "j < 4" by simp
  have n: "n = 4 - (j + 1)" using Suc.hyps(2) by simp
  show ?case
  proof
    assume a: "outer_j j z (s, buf, i, l, True) = Some (Return st)"
    then obtain s1 buf1 i1 l1 f1 z1 where
      inner: "inner_k z j 0 (s, buf, i, l, True) = Some (Next (s1, buf1, i1, l1, f1))" and
      rec0: "outer_j (j + 1) z1 (s1, buf1, i1, l1, f1) = Some (Return st)"
      by (auto simp: outer_j_step [OF j] inner_k_fill_not_Return split: option.splits flow.splits)
    from inner_k_fill_Next [OF inner] have "f1" by simp
    with rec0 Suc.hyps(1) [OF n] show False by simp
  qed
qed

lemma outer_j_buf_Next:
  "outer_j j z (s, buf, i, l, False) = Some (Next (s', buf', i', l', f')) \<Longrightarrow> j \<le> 4 \<Longrightarrow>
   length buf' = length buf \<and> take i buf' = take i buf \<and> s'\<lparr>r := []\<rparr> = s\<lparr>r := []\<rparr> \<and>
   ((\<not> f' \<and> l' = l \<and> i' = i + 4 * (4 - j) \<and> (j < 4 \<longrightarrow> i' < l) \<and> r s' = r s)
    \<or> (f' \<and> i' = l' \<and> l' < 16 \<and> length (r s') = l'))"
proof (induction "4 - j" arbitrary: j z s buf i)
  case 0
  then show ?case by (simp add: outer_j_done)
next
  case (Suc n)
  then have j: "j < 4" by simp
  have n: "n = 4 - (j + 1)" using Suc.hyps(2) by simp
  from Suc.prems(1) obtain s1 buf1 i1 l1 f1 z1 where
    inner: "inner_k z j 0 (s, buf, i, l, False) = Some (Next (s1, buf1, i1, l1, f1))" and
    rec: "outer_j (j + 1) z1 (s1, buf1, i1, l1, f1) = Some (Next (s', buf', i', l', f'))"
    by (auto simp: outer_j_step [OF j] split: option.splits flow.splits)
  from inner_k_buf_Next [OF inner j] have
    s1: "length buf1 = length buf" "s1\<lparr>r := []\<rparr> = s\<lparr>r := []\<rparr>"
        "take i buf1 = take i buf" and
    alt: "(\<not> f1 \<and> l1 = l \<and> i1 = i + 4 \<and> i1 < l \<and> r s1 = r s)
          \<or> (f1 \<and> i1 + (12 - 4 * j) = l1 \<and> l1 < 16 \<and> length (r s1) = l1)"
    by simp_all
  from alt show ?case
  proof
    assume a: "\<not> f1 \<and> l1 = l \<and> i1 = i + 4 \<and> i1 < l \<and> r s1 = r s"
    with rec have "outer_j (j + 1) z1 (s1, buf1, i + 4, l, False) = Some (Next (s', buf', i', l', f'))"
      by simp
    from Suc.hyps(1) [OF n this] j have
      ih: "length buf' = length buf1" "take (i + 4) buf' = take (i + 4) buf1"
          "s'\<lparr>r := []\<rparr> = s1\<lparr>r := []\<rparr>"
          "(\<not> f' \<and> l' = l \<and> i' = i + 4 + 4 * (4 - (j + 1)) \<and> (j + 1 < 4 \<longrightarrow> i' < l) \<and> r s' = r s1)
           \<or> (f' \<and> i' = l' \<and> l' < 16 \<and> length (r s') = l')"
      by simp_all
    from ih(2) have "take i buf' = take i buf1"
      by (rule take_le_eq) simp
    with ih j a s1 show ?thesis by auto
  next
    assume a: "f1 \<and> i1 + (12 - 4 * j) = l1 \<and> l1 < 16 \<and> length (r s1) = l1"
    with rec have "outer_j (j + 1) z1 (s1, buf1, i1, l1, True) = Some (Next (s', buf', i', l', f'))"
      by simp
    from outer_j_fill_Next [OF this] j a s1 show ?thesis by auto
  qed
qed

lemma outer_j_buf_Return:
  "outer_j j z (s, buf, i, l, False) = Some (Return (s', buf', i', l', f')) \<Longrightarrow>
   s'\<lparr>r := []\<rparr> = s\<lparr>r := []\<rparr> \<and> r s' = r s \<and> length buf' = length buf
   \<and> take i buf' = take i buf"
proof (induction "4 - j" arbitrary: j z s buf i l)
  case 0
  then show ?case by (simp add: outer_j_done)
next
  case (Suc n)
  then have j: "j < 4" by simp
  have n: "n = 4 - (j + 1)" using Suc.hyps(2) by simp
  from Suc.prems(1) consider
    (ret) "inner_k z j 0 (s, buf, i, l, False) = Some (Return (s', buf', i', l', f'))"
  | (nxt) s1 buf1 i1 l1 f1 z1 where
      "inner_k z j 0 (s, buf, i, l, False) = Some (Next (s1, buf1, i1, l1, f1))"
      "outer_j (j + 1) z1 (s1, buf1, i1, l1, f1) = Some (Return (s', buf', i', l', f'))"
    by (auto simp: outer_j_step [OF j] split: option.splits flow.splits)
  then show ?case
  proof cases
    case ret
    from inner_k_buf_Return [OF ret] show ?thesis by simp
  next
    case nxt
    from inner_k_buf_Next [OF nxt(1) j] have
      s1: "length buf1 = length buf" "s1\<lparr>r := []\<rparr> = s\<lparr>r := []\<rparr>"
          "take i buf1 = take i buf" and
      alt: "(\<not> f1 \<and> r s1 = r s \<and> i1 = i + 4) \<or> f1"
      by auto
    from alt show ?thesis
    proof
      assume a: "\<not> f1 \<and> r s1 = r s \<and> i1 = i + 4"
      with nxt(2) have
        ret: "outer_j (j + 1) z1 (s1, buf1, i + 4, l1, False) = Some (Return (s', buf', i', l', f'))"
        by simp
      from Suc.hyps(1) [OF n ret] have
        ih: "s'\<lparr>r := []\<rparr> = s1\<lparr>r := []\<rparr>" "r s' = r s1" "length buf' = length buf1"
            "take (i + 4) buf' = take (i + 4) buf1"
        by simp_all
      from ih(4) have "take i buf' = take i buf1"
        by (rule take_le_eq) simp
      with ih a s1 show ?thesis by simp
    next
      assume "f1"
      with nxt(2) outer_j_fill_not_Return show ?thesis by simp
    qed
  qed
qed

text \<open>With room in the buffer, the partial-block loops do not panic.\<close>

lemma xor_at_total: "i < length b \<Longrightarrow> xor_at b i v \<noteq> None"
  by (simp add: xor_at_def)

lemma inner_k_fill_total:
  "k \<le> 4 \<Longrightarrow> i + (4 - k) \<le> length (r s) \<Longrightarrow> inner_k z j k (s, buf, i, l, True) \<noteq> None"
proof (induction "4 - k" arbitrary: k s i)
  case 0
  then show ?case by (simp add: inner_k_done)
next
  case (Suc n)
  then have k: "k < 4" by simp
  have n: "n = 4 - (k + 1)" using Suc.hyps(2) by simp
  from Suc.prems k have "i < length (r s)" by simp
  then obtain b' where b: "xor_at (r s) i (ucast (drop_bit (k * 8) z)) = Some b'"
    using xor_at_total by fastforce
  from xor_at_Some [OF b] Suc.prems k have "i + 1 + (4 - (k + 1)) \<le> length (r (s\<lparr>r := b'\<rparr>))"
    by simp
  from Suc.hyps(1) [OF n _ this] k b show ?case
    by (simp add: inner_k_fill [OF k])
qed

lemma inner_k_buf_total:
  "k \<le> 4 \<Longrightarrow> j < 4 \<Longrightarrow> i < l \<Longrightarrow> l \<le> length buf \<Longrightarrow>
   inner_k z j k (s, buf, i, l, False) \<noteq> None"
proof (induction "4 - k" arbitrary: k buf i)
  case 0
  then show ?case by (simp add: inner_k_done)
next
  case (Suc n)
  then have k: "k < 4" by simp
  have n: "n = 4 - (k + 1)" using Suc.hyps(2) by simp
  from Suc.prems have "i < length buf" by simp
  then obtain b' where b: "xor_at buf i (ucast (drop_bit (k * 8) z)) = Some b'"
    using xor_at_total by fastforce
  note len = xor_at_Some [OF b]
  show ?case
  proof (cases "l \<le> i + 1")
    case True
    let ?l1 = "(3 - j) * 4 + (3 - k)"
    have "0 + (4 - (k + 1)) \<le> length (r (s\<lparr>r := replicate ?l1 0\<rparr>))" using k by simp
    from inner_k_fill_total [OF _ this, of z j b' ?l1] k True b show ?thesis
      by (simp add: inner_k_buf [OF k])
  next
    case False
    with Suc.hyps(1) [OF n _ \<open>j < 4\<close>, of "i + 1" b'] k len Suc.prems b show ?thesis
      by (simp add: inner_k_buf [OF k])
  qed
qed

lemma outer_j_fill_total:
  "j \<le> 4 \<Longrightarrow> i + 4 * (4 - j) \<le> length (r s) \<Longrightarrow> outer_j j z (s, buf, i, l, True) \<noteq> None"
proof (induction "4 - j" arbitrary: j z s i)
  case 0
  then show ?case by (simp add: outer_j_done)
next
  case (Suc n)
  then have j: "j < 4" by simp
  have n: "n = 4 - (j + 1)" using Suc.hyps(2) by simp
  from Suc.prems j have "i + (4 - 0) \<le> length (r s)" by simp
  from inner_k_fill_total [OF _ this, of z j buf l] inner_k_fill_not_Return [of z j 0 s buf i l]
  obtain s1 buf1 i1 l1 f1 where
    inner: "inner_k z j 0 (s, buf, i, l, True) = Some (Next (s1, buf1, i1, l1, f1))"
    by (cases "inner_k z j 0 (s, buf, i, l, True)") (auto, metis flow.exhaust prod_cases5)
  from inner_k_fill_Next [OF inner] have
    s1: "f1" "l1 = l" "i1 = i + 4" "buf1 = buf" "length (r s1) = length (r s)"
    by simp_all
  from Suc.prems j s1 have "i + 4 + 4 * (4 - (j + 1)) \<le> length (r s1)" by simp
  from Suc.hyps(1) [OF n _ this] j inner s1 show ?case
    by (simp add: outer_j_step [OF j])
qed

lemma outer_j_buf_total:
  "j \<le> 4 \<Longrightarrow> i < l \<Longrightarrow> l \<le> length buf \<Longrightarrow> outer_j j z (s, buf, i, l, False) \<noteq> None"
proof (induction "4 - j" arbitrary: j z s buf i)
  case 0
  then show ?case by (simp add: outer_j_done)
next
  case (Suc n)
  then have j: "j < 4" by simp
  have n: "n = 4 - (j + 1)" using Suc.hyps(2) by simp
  from inner_k_buf_total [OF _ j Suc.prems(2,3), of 0 z s]
  obtain fl where fl: "inner_k z j 0 (s, buf, i, l, False) = Some fl" by auto
  show ?case
  proof (cases fl)
    case (Return st)
    with fl show ?thesis by (simp add: outer_j_step [OF j])
  next
    case (Next st)
    obtain s1 buf1 i1 l1 f1 where st: "st = (s1, buf1, i1, l1, f1)" by (cases st)
    from fl Next st have
      inner: "inner_k z j 0 (s, buf, i, l, False) = Some (Next (s1, buf1, i1, l1, f1))" by simp
    from inner_k_buf_Next [OF inner j] have
      len: "length buf1 = length buf" and
      alt: "(\<not> f1 \<and> l1 = l \<and> i1 = i + 4 \<and> i1 < l)
            \<or> (f1 \<and> i1 + (12 - 4 * j) = l1 \<and> length (r s1) = l1)"
      by auto
    from alt show ?thesis
    proof
      assume a: "\<not> f1 \<and> l1 = l \<and> i1 = i + 4 \<and> i1 < l"
      with Suc.hyps(1) [OF n, of "i + 4" buf1] j len Suc.prems inner show ?thesis
        by (simp add: outer_j_step [OF j])
    next
      assume a: "f1 \<and> i1 + (12 - 4 * j) = l1 \<and> length (r s1) = l1"
      with j have "i1 + 4 * (4 - (j + 1)) \<le> length (r s1)" by auto
      from outer_j_fill_total [OF _ this] j a inner show ?thesis
        by (simp add: outer_j_step [OF j])
    qed
  qed
qed

subsection \<open>The main loop and \<open>ProcessStream\<close>\<close>

text \<open>
  \<open>for i < l { c.rabbitNext(); ... }\<close>: a full block is XORed in while 16 bytes or more
  remain, the last bytes go through the partial-block loops, which reassign \<open>i\<close> and
  \<open>l\<close>; the loop test is then taken again on the new values.
\<close>

function stream_loop :: "Cipher \<Rightarrow> byte list \<Rightarrow> nat \<Rightarrow> nat \<Rightarrow> (Cipher \<times> byte list) option" where
  "stream_loop s buf i l =
     (if i < l then
        (let s1 = rabbitNext s in
         if l - i \<ge> 16 then
           (case xor_bytes buf i (block s1) of
              None \<Rightarrow> None
            | Some buf' \<Rightarrow> stream_loop s1 buf' (i + 16) l)
         else
           (case outer_j 0 (o0 s1) (s1, buf, i, l, False) of
              None \<Rightarrow> None
            | Some (Return (s2, buf2, i2, l2, f2)) \<Rightarrow> Some (s2, buf2)
            | Some (Next (s2, buf2, i2, l2, f2)) \<Rightarrow> stream_loop s2 buf2 i2 l2))
      else Some (s, buf))"
  by pat_completeness auto
termination
proof (relation "measure (\<lambda>(s, buf, i, l). l - i)", goal_cases)
  case 1
  show ?case by simp
next
  case (2 s buf i l s1 buf')
  then show ?case by simp
next
  case (3 s buf i l s1 fl st s2 rest buf2 rest2 i2 rest3 l2 f2)
  then have "outer_j 0 (o0 s1) (s1, buf, i, l, False) = Some (Next (s2, buf2, i2, l2, f2))"
    by simp
  from outer_j_buf_Next [OF this] 3(1) show ?case by auto
qed

definition ProcessStream :: "Cipher \<Rightarrow> byte list \<Rightarrow> (Cipher \<times> byte list) option" where
  "ProcessStream s buf =
     (let l = length buf; m = length (r s) in
      if m > 0 then
        (case pending_loop buf (r s) 0 m l of
           None \<Rightarrow> None
         | Some (buf1, i) \<Rightarrow> stream_loop (s\<lparr>r := []\<rparr>) buf1 i l)
      else stream_loop s buf 0 l)"

section \<open>Callers\<close>

text \<open>A message fed through \<open>ProcessStream\<close> chunk by chunk; the outputs are concatenated.\<close>

fun ProcessStream_chunks :: "Cipher \<Rightarrow> byte list list \<Rightarrow> (Cipher \<times> byte list) option" where
  "ProcessStream_chunks s [] = Some (s, [])"
| "ProcessStream_chunks s (b # bs) =
     (case ProcessStream s b of
        None \<Rightarrow> None
      | Some (s1, out1) \<Rightarrow>
         (case ProcessStream_chunks s1 bs of
            None \<Rightarrow> None
          | Some (s2, out2) \<Rightarrow> Some (s2, out1 @ out2)))"

text \<open>
  The four operations on an existing cipher, and a sequence of them. A \<open>SetupIV\<close> that
  returns an error leaves the cipher to the next operation as it is.
\<close>

datatype op = OpSetupIV "byte list" | OpProcessStream "byte list" | OpResetCipher | OpReset

fun apply_op :: "Cipher \<Rightarrow> op \<Rightarrow> Cipher option" where
  "apply_op s (OpSetupIV iv) = Some (fst (SetupIV s iv))"
| "apply_op s (OpProcessStream buf) = map_option fst (ProcessStream s buf)"
| "apply_op s OpResetCipher = Some (ResetCipher s)"
| "apply_op s OpReset = Some (Reset s)"

fun run_ops :: "Cipher \<Rightarrow> op list \<Rightarrow> Cipher option" where
  "run_ops s [] = Some s"
| "run_ops s (p # ps) = (case apply_op s p of None \<Rightarrow> None | Some s1 \<Rightarrow> run_ops s1 ps)"

section \<open>The counter update in the words of the specification\<close>

text \<open>
  Section 4.3 of the specification: word \<open>i\<close> of the counter becomes
  \<open>c[i] + constant(i) + carry_in\<close>, with two constants alternated by the parity of the
  index, here \<open>ka\<close> for even and \<open>kb\<close> for odd \<open>i\<close>; the carry-in of word 0 is the carry
  flag of the last round, that of a later word is 1 when the word before it, just
  computed, is below its value before the round.
\<close>

definition carry_in :: "Cipher \<Rightarrow> nat \<Rightarrow> u32" where
  "carry_in s i =
     (if i = 0 then booltoi (carry s)
      else booltoi (idx (c (rabbitNext s)) (i - 1) < idx (c s) (i - 1)))"

definition spec_counter_word :: "u32 \<Rightarrow> u32 \<Rightarrow> Cipher \<Rightarrow> nat \<Rightarrow> u32" where
  "spec_counter_word ka kb s i = idx (c s) i + (if even i then ka else kb) + carry_in s i"

text \<open>The constants the code adds: three of them, repeating with period 3 over the index.\<close>

definition counter_const :: "nat \<Rightarrow> u32" where
  "counter_const i =
     (if i mod 3 = 0 then 0x4D34D34D else if i mod 3 = 1 then 0xD34D34D3 else 0x34D34D34)"

section \<open>Closed forms of the fixed loops and what a round leaves alone\<close>

lemma upt8: "[0..<8] = [0, 1, 2, 3, 4, 5, 6, 7]"
  by (simp add: upt_rec)

lemma copy_c_loop:
  "foldl (\<lambda>t i. t\<lparr>c := upd (c t) i (idx (cc t) i)\<rparr>) s [0..<8] = s\<lparr>c := cc s\<rparr>"
  by (cases "c s"; cases "cc s") (simp add: upt8)

lemma copy_x_loop:
  "foldl (\<lambda>t i. t\<lparr>x := upd (x t) i (idx (cx t) i)\<rparr>) s [0..<8] = s\<lparr>x := cx s\<rparr>"
  by (cases "x s"; cases "cx s") (simp add: upt8)

lemma snapshot_loop:
  "foldl (\<lambda>t i. t\<lparr>cx := upd (cx t) i (idx (x t) i), cc := upd (cc t) i (idx (c t) i)\<rparr>) s [0..<8]
     = s\<lparr>cx := x s, cc := c s\<rparr>"
  by (cases "x s"; cases "cx s"; cases "c s"; cases "cc s") (simp add: upt8)

lemma zero_loop:
  "foldl (\<lambda>t i. t\<lparr>x := upd (x t) i 0, c := upd (c t) i 0,
                    cx := upd (cx t) i 0, cc := upd (cc t) i 0\<rparr>) s [0..<8]
     = s\<lparr>x := zero8, c := zero8, cx := zero8, cc := zero8\<rparr>"
  by (cases "x s"; cases "cx s"; cases "c s"; cases "cc s") (simp add: upt8 zero8_def)

lemma ResetCipher_eq: "ResetCipher s = s\<lparr>c := cc s, x := cx s, carry := ccarry s\<rparr>"
  by (simp add: ResetCipher_def Let_def copy_c_loop copy_x_loop)

lemma Reset_eq:
  "Reset s = s\<lparr>x := zero8, c := zero8, cx := zero8, cc := zero8, carry := False\<rparr>"
  by (simp add: Reset_def Let_def zero_loop)

lemma rabbitNext_frame:
  "cx (rabbitNext s) = cx s" "cc (rabbitNext s) = cc s" "ccarry (rabbitNext s) = ccarry s"
  "r (rabbitNext s) = r s"
  by (simp_all add: rabbitNext_def Let_def)

lemma rabbitNext_cong:
  "x s = x t \<Longrightarrow> c s = c t \<Longrightarrow> carry s = carry t \<Longrightarrow>
   x (rabbitNext s) = x (rabbitNext t) \<and> c (rabbitNext s) = c (rabbitNext t)
   \<and> carry (rabbitNext s) = carry (rabbitNext t)"
  by (simp add: rabbitNext_def Let_def)

lemma warmup_frame:
  "cx (warmup s) = cx s" "cc (warmup s) = cc s" "ccarry (warmup s) = ccarry s"
  "r (warmup s) = r s"
  by (simp_all add: warmup_def rabbitNext_frame)

section \<open>What the main loop returns\<close>

declare stream_loop.simps [simp del] pending_loop.simps [simp del]

lemma length_block: "length (block s) = 16"
  by (simp add: block_def le_bytes_def)

lemma xor_bytes_Some:
  "i + length vs \<le> length buf \<Longrightarrow>
   \<exists>buf'. xor_bytes buf i vs = Some buf' \<and> length buf' = length buf \<and> take i buf' = take i buf"
proof (induction vs arbitrary: buf i)
  case Nil
  then show ?case by simp
next
  case (Cons v vs)
  then have "i < length buf" by simp
  then obtain b1 where b1: "xor_at buf i v = Some b1"
    by (simp add: xor_at_def)
  note len = xor_at_Some [OF b1]
  from Cons.prems len have "i + 1 + length vs \<le> length b1" by simp
  from Cons.IH [OF this] obtain buf' where
    r: "xor_bytes b1 (i + 1) vs = Some buf'" "length buf' = length b1"
       "take (i + 1) buf' = take (i + 1) b1"
    by blast
  from r(3) have "take i buf' = take i b1" by (rule take_le_eq) simp
  with r b1 len show ?case by simp
qed

lemma same_core:
  "s'\<lparr>r := []\<rparr> = s\<lparr>r := []\<rparr> \<Longrightarrow>
   x s' = x s \<and> c s' = c s \<and> cx s' = cx s \<and> cc s' = cc s \<and> carry s' = carry s \<and> ccarry s' = ccarry s"
proof -
  assume eq: "s'\<lparr>r := []\<rparr> = s\<lparr>r := []\<rparr>"
  have "x (s'\<lparr>r := []\<rparr>) = x (s\<lparr>r := []\<rparr>)" "c (s'\<lparr>r := []\<rparr>) = c (s\<lparr>r := []\<rparr>)"
       "cx (s'\<lparr>r := []\<rparr>) = cx (s\<lparr>r := []\<rparr>)" "cc (s'\<lparr>r := []\<rparr>) = cc (s\<lparr>r := []\<rparr>)"
       "carry (s'\<lparr>r := []\<rparr>) = carry (s\<lparr>r := []\<rparr>)" "ccarry (s'\<lparr>r := []\<rparr>) = ccarry (s\<lparr>r := []\<rparr>)"
    by (simp_all only: eq)
  then show ?thesis by simp
qed

lemma stream_loop_exit: "\<not> i < l \<Longrightarrow> stream_loop s buf i l = Some (s, buf)"
  by (subst stream_loop.simps) simp

lemma stream_loop_props:
  "l \<le> length buf \<Longrightarrow> length (r s) < 16 \<Longrightarrow>
   \<exists>s' buf'. stream_loop s buf i l = Some (s', buf') \<and> length buf' = length buf
     \<and> take i buf' = take i buf \<and> length (r s') < 16
     \<and> cx s' = cx s \<and> cc s' = cc s \<and> ccarry s' = ccarry s"
proof (induction "l - i" arbitrary: s buf i rule: less_induct)
  case less
  show ?case
  proof (cases "i < l")
    case False
    then show ?thesis using less.prems by (simp add: stream_loop_exit)
  next
    case True
    let ?s1 = "rabbitNext s"
    show ?thesis
    proof (cases "16 \<le> l - i")
      case full: True
      with less.prems have "i + length (block ?s1) \<le> length buf" by (simp add: length_block)
      from xor_bytes_Some [OF this] obtain b1 where
        b1: "xor_bytes buf i (block ?s1) = Some b1" "length b1 = length buf"
            "take i b1 = take i buf"
        by blast
      have step: "stream_loop s buf i l = stream_loop ?s1 b1 (i + 16) l"
        using True full b1(1) by (subst stream_loop.simps) (simp add: Let_def)
      have "l - (i + 16) < l - i" using True by simp
      from less.hyps [OF this, of b1 ?s1] less.prems b1(2) obtain s' buf' where
        ih: "stream_loop ?s1 b1 (i + 16) l = Some (s', buf')" "length buf' = length b1"
            "take (i + 16) buf' = take (i + 16) b1" "length (r s') < 16"
            "cx s' = cx ?s1" "cc s' = cc ?s1" "ccarry s' = ccarry ?s1"
        by (auto simp: rabbitNext_frame)
      from ih(3) have "take i buf' = take i b1" by (rule take_le_eq) simp
      with step ih b1 show ?thesis by (simp add: rabbitNext_frame)
    next
      case part: False
      from outer_j_buf_total [OF _ True less.prems(1), of 0 "o0 ?s1" ?s1]
      obtain fl where fl: "outer_j 0 (o0 ?s1) (?s1, buf, i, l, False) = Some fl" by auto
      obtain s2 buf2 i2 l2 f2 where
        cases: "fl = Return (s2, buf2, i2, l2, f2) \<or> fl = Next (s2, buf2, i2, l2, f2)"
        by (cases fl) (metis prod_cases5)+
      from cases show ?thesis
      proof
        assume ret: "fl = Return (s2, buf2, i2, l2, f2)"
        with fl have res: "stream_loop s buf i l = Some (s2, buf2)"
          using True part by (subst stream_loop.simps) (simp add: Let_def)
        from outer_j_buf_Return [OF fl [unfolded ret]] same_core [of s2 ?s1] less.prems res
        show ?thesis by (simp add: rabbitNext_frame)
      next
        assume nxt: "fl = Next (s2, buf2, i2, l2, f2)"
        with fl have step: "stream_loop s buf i l = stream_loop s2 buf2 i2 l2"
          using True part by (subst stream_loop.simps) (simp add: Let_def)
        from outer_j_buf_Next [OF fl [unfolded nxt]] part have
          p: "length buf2 = length buf" "take i buf2 = take i buf"
             "s2\<lparr>r := []\<rparr> = ?s1\<lparr>r := []\<rparr>" "i2 = l2" "l2 < 16" "length (r s2) = l2"
          by auto
        from p(4) have "stream_loop s2 buf2 i2 l2 = Some (s2, buf2)"
          by (simp add: stream_loop_exit)
        with step p same_core [OF p(3)] show ?thesis by (simp add: rabbitNext_frame)
      qed
    qed
  qed
qed

section \<open>What \<open>ProcessStream\<close> returns\<close>

lemma pending_loop_Some:
  "m \<le> length p \<Longrightarrow> l \<le> length buf \<Longrightarrow> i \<le> min m l \<Longrightarrow>
   \<exists>buf'. pending_loop buf p i m l = Some (buf', min m l) \<and> length buf' = length buf
     \<and> (\<forall>q < length buf. buf' ! q = (if i \<le> q \<and> q < min m l then buf ! q XOR p ! q else buf ! q))"
proof (induction "min m l - i" arbitrary: buf i rule: less_induct)
  case less
  show ?case
  proof (cases "i < m \<and> i < l")
    case False
    with less.prems have "i = min m l" by auto
    with False show ?thesis by (subst pending_loop.simps) auto
  next
    case True
    with less.prems have rd: "read_at p i = Some (p ! i)" by (simp add: read_at_def)
    from True less.prems have xr: "xor_at buf i (p ! i) = Some (buf[i := buf ! i XOR p ! i])"
      by (simp add: xor_at_def)
    let ?b = "buf[i := buf ! i XOR p ! i]"
    have step: "pending_loop buf p i m l = pending_loop ?b p (i + 1) m l"
      using True rd xr by (subst pending_loop.simps) simp
    have "min m l - (i + 1) < min m l - i" using True by auto
    from less.hyps [OF this less.prems(1), of ?b] less.prems True obtain buf' where
      ih: "pending_loop ?b p (i + 1) m l = Some (buf', min m l)" "length buf' = length buf"
          "\<forall>q < length buf. buf' ! q = (if i + 1 \<le> q \<and> q < min m l then ?b ! q XOR p ! q else ?b ! q)"
      by auto
    have "\<forall>q < length buf. buf' ! q = (if i \<le> q \<and> q < min m l then buf ! q XOR p ! q else buf ! q)"
    proof (intro allI impI)
      fix q assume q: "q < length buf"
      show "buf' ! q = (if i \<le> q \<and> q < min m l then buf ! q XOR p ! q else buf ! q)"
      proof (cases "q = i")
        case True
        with ih(3) q \<open>i < m \<and> i < l\<close> show ?thesis by simp
      next
        case False
        with ih(3) q show ?thesis by auto
      qed
    qed
    with step ih show ?thesis by simp
  qed
qed

lemma ProcessStream_props:
  "\<exists>s' out. ProcessStream s buf = Some (s', out) \<and> length out = length buf
     \<and> length (r s') < 16 \<and> cx s' = cx s \<and> cc s' = cc s \<and> ccarry s' = ccarry s
     \<and> (\<forall>q < min (length (r s)) (length buf). out ! q = buf ! q XOR r s ! q)"
proof (cases "0 < length (r s)")
  case False
  then have e: "r s = []" by simp
  from stream_loop_props [of "length buf" buf s 0] e obtain s' out where
    "stream_loop s buf 0 (length buf) = Some (s', out)" "length out = length buf"
    "length (r s') < 16" "cx s' = cx s" "cc s' = cc s" "ccarry s' = ccarry s"
    by auto
  with e show ?thesis by (simp add: ProcessStream_def)
next
  case True
  let ?m = "length (r s)" and ?l = "length buf"
  from pending_loop_Some [of ?m "r s" ?l buf 0] obtain b1 where
    b1: "pending_loop buf (r s) 0 ?m ?l = Some (b1, min ?m ?l)" "length b1 = length buf"
        "\<forall>q < length buf. b1 ! q = (if q < min ?m ?l then buf ! q XOR r s ! q else buf ! q)"
    by auto
  from stream_loop_props [of ?l b1 "s\<lparr>r := []\<rparr>" "min ?m ?l"] b1(2) obtain s' out where
    sl: "stream_loop (s\<lparr>r := []\<rparr>) b1 (min ?m ?l) ?l = Some (s', out)" "length out = length buf"
        "take (min ?m ?l) out = take (min ?m ?l) b1"
        "length (r s') < 16" "cx s' = cx s" "cc s' = cc s" "ccarry s' = ccarry s"
    by auto
  have "\<forall>q < min ?m ?l. out ! q = buf ! q XOR r s ! q"
  proof (intro allI impI)
    fix q assume q: "q < min ?m ?l"
    then have "out ! q = take (min ?m ?l) out ! q" by simp
    also have "\<dots> = b1 ! q" using q sl(3) by simp
    also have "\<dots> = buf ! q XOR r s ! q" using q b1(3) by simp
    finally show "out ! q = buf ! q XOR r s ! q" .
  qed
  with True b1 sl show ?thesis by (simp add: ProcessStream_def)
qed

lemma ProcessStream_empty: "ProcessStream s [] = Some (s\<lparr>r := []\<rparr>, [])"
proof (cases "0 < length (r s)")
  case False
  then show ?thesis by (simp add: ProcessStream_def stream_loop_exit)
next
  case True
  have "pending_loop [] (r s) 0 (length (r s)) 0 = Some ([], 0)"
    by (subst pending_loop.simps) simp
  with True show ?thesis by (simp add: ProcessStream_def stream_loop_exit)
qed

section \<open>Key schedule, IV setup and their size checks\<close>

lemma SetupIV_bad: "length iv \<noteq> 8 \<Longrightarrow> SetupIV s iv = (s, Some (KeySizeError 2 (int (length iv))))"
  by (simp add: SetupIV_def)

lemma SetupIV_ok: "length iv = 8 \<Longrightarrow> snd (SetupIV s iv) = None"
  by (simp add: SetupIV_def Let_def)

lemma SetupIV_frame:
  "cx (fst (SetupIV s iv)) = cx s" "cc (fst (SetupIV s iv)) = cc s"
  "ccarry (fst (SetupIV s iv)) = ccarry s" "r (fst (SetupIV s iv)) = r s"
  by (simp_all add: SetupIV_def Let_def copy_x_loop warmup_frame)

lemma SetupIV_master:
  assumes "cx (t::Cipher) = cx (s::Cipher)" "cc t = cc s" "ccarry t = ccarry s" "r t = r s" "length iv = 8"
  shows "SetupIV t iv = SetupIV s iv"
  using assms
  apply (simp add: SetupIV_def Let_def copy_x_loop)
  apply (rule arg_cong [where f = warmup])
  apply (rule Cipher.equality)
         apply simp_all
  done

lemma rabbitNext_r_update: "rabbitNext (s\<lparr>r := q\<rparr>) = (rabbitNext s)\<lparr>r := q\<rparr>"
  by (simp add: rabbitNext_def Let_def)

lemma warmup_r_update: "warmup (s\<lparr>r := q\<rparr>) = (warmup s)\<lparr>r := q\<rparr>"
  by (simp add: warmup_def rabbitNext_r_update)

lemma SetupIV_live:
  assumes "cx (t::Cipher) = cx (s::Cipher)" "cc t = cc s" "ccarry t = ccarry s" "length iv = 8"
  shows "fst (SetupIV t iv) = (fst (SetupIV s iv))\<lparr>r := r t\<rparr>"
  using assms
  apply (simp add: SetupIV_def Let_def copy_x_loop warmup_r_update [symmetric])
  apply (rule arg_cong [where f = warmup])
  apply (rule Cipher.equality)
         apply simp_all
  done

lemma NewCipher_bad: "length key \<noteq> 16 \<Longrightarrow> NewCipher key = Inl (KeySizeError 1 (int (length key)))"
  by (simp add: NewCipher_def)

lemma mix_loop:
  "foldl (\<lambda>t i. t\<lparr>c := upd (c t) i (idx (c t) i XOR idx (x t) ((i + 4) mod 8))\<rparr>) s [0..<8]
     = s\<lparr>c := Arr8 (idx (c s) 0 XOR idx (x s) 4) (idx (c s) 1 XOR idx (x s) 5)
                    (idx (c s) 2 XOR idx (x s) 6) (idx (c s) 3 XOR idx (x s) 7)
                    (idx (c s) 4 XOR idx (x s) 0) (idx (c s) 5 XOR idx (x s) 1)
                    (idx (c s) 6 XOR idx (x s) 2) (idx (c s) 7 XOR idx (x s) 3)\<rparr>"
  by (cases "c s"; cases "x s") (simp add: upt8)

lemma NewCipher_ok:
  "length key = 16 \<Longrightarrow>
   \<exists>s. NewCipher key = Inr s \<and> cx s = x s \<and> cc s = c s \<and> ccarry s = carry s \<and> r s = []"
  by (simp add: NewCipher_def Let_def snapshot_loop mix_loop warmup_frame zero_Cipher_def)

section \<open>Sequences of operations and the counter words\<close>

lemma apply_op_inv:
  "length (r s) < 16 \<Longrightarrow> \<exists>s'. apply_op s p = Some s' \<and> length (r s') < 16"
proof (cases p)
  case (OpSetupIV iv)
  then show "length (r s) < 16 \<Longrightarrow> ?thesis" by (simp add: SetupIV_frame)
next
  case (OpProcessStream buf)
  from ProcessStream_props [of s buf] obtain s' out where
    "ProcessStream s buf = Some (s', out)" "length (r s') < 16" by blast
  with OpProcessStream show ?thesis by simp
next
  case OpResetCipher
  then show "length (r s) < 16 \<Longrightarrow> ?thesis" by (simp add: ResetCipher_eq)
next
  case OpReset
  then show "length (r s) < 16 \<Longrightarrow> ?thesis" by (simp add: Reset_eq)
qed

lemma run_ops_inv:
  "length (r s) < 16 \<Longrightarrow> \<exists>s'. run_ops s ops = Some s' \<and> length (r s') < 16"
proof (induction ops arbitrary: s)
  case Nil
  then show ?case by simp
next
  case (Cons p ps)
  from apply_op_inv [OF Cons.prems, of p] obtain s1 where
    s1: "apply_op s p = Some s1" "length (r s1) < 16" by blast
  from Cons.IH [OF s1(2)] s1(1) show ?case by simp
qed

lemma below_8: "i < 8 \<Longrightarrow> i = 0 \<or> i = 1 \<or> i = 2 \<or> i = 3 \<or> i = 4 \<or> i = 5 \<or> i = 6 \<or> i = (7::nat)"
  by arith

lemma rabbitNext_c:
  "c (rabbitNext s) =
     (let c0 = idx (c s) 0 + 0x4D34D34D + booltoi (carry s);
          c1 = idx (c s) 1 + 0xD34D34D3 + booltoi (c0 < idx (c s) 0);
          c2 = idx (c s) 2 + 0x34D34D34 + booltoi (c1 < idx (c s) 1);
          c3 = idx (c s) 3 + 0x4D34D34D + booltoi (c2 < idx (c s) 2);
          c4 = idx (c s) 4 + 0xD34D34D3 + booltoi (c3 < idx (c s) 3);
          c5 = idx (c s) 5 + 0x34D34D34 + booltoi (c4 < idx (c s) 4);
          c6 = idx (c s) 6 + 0x4D34D34D + booltoi (c5 < idx (c s) 5);
          c7 = idx (c s) 7 + 0xD34D34D3 + booltoi (c6 < idx (c s) 6)
      in Arr8 c0 c1 c2 c3 c4 c5 c6 c7)"
  "carry (rabbitNext s) = (idx (c (rabbitNext s)) 7 < idx (c s) 7)"
  by (simp_all add: rabbitNext_def Let_def)

section \<open>The all-zero key\<close>

text \<open>The cipher that \<open>NewCipher\<close> returns for the key of sixteen zero bytes.\<close>

definition zero_key_Cipher :: Cipher where
  "zero_key_Cipher =
     \<lparr>x = Arr8 1855855896 4121251420 4177349062 2610177343 3704703609 523434528
               3523565857 1408463312,
      c = Arr8 3892447055 1376135533 21523954 1730165988 598396501 652769935
               3425567986 3600873074,
      cx = Arr8 1855855896 4121251420 4177349062 2610177343 3704703609 523434528
                3523565857 1408463312,
      cc = Arr8 3892447055 1376135533 21523954 1730165988 598396501 652769935
                3425567986 3600873074,
      carry = True, ccarry = True, r = []\<rparr>"

lemma NewCipher_zero_key: "NewCipher (replicate 16 0) = Inr zero_key_Cipher"
  by code_simp

section \<open>Claims\<close>

text \<open>
  C9. The g-function of the code is the reference definition of the specification: with
  \<open>a\<close> the low 16 bits and \<open>b\<close> the high 16 bits of the input \<open>u\<close>,
  \<open>rabbitCalcG u = (((((a*a) >> 17) + a*b) >> 15) + b*b) XOR (u*u)\<close> in arithmetic
  modulo \<open>2^32\<close>.
\<close>

theorem rabbitCalcG_is_spec_G: "rabbitCalcG u = spec_G u"
proof -
  have low: "u AND 0xFFFF = take_bit 16 u"
    using take_bit_eq_mask [of 16 u] by (simp add: mask_eq_exp_minus_1)
  show ?thesis
    unfolding rabbitCalcG_def spec_G_def Let_def low
    by (simp add: drop_bit_eq_div)
qed

text \<open>
  C6. \<open>NewCipher\<close> returns the key-size error exactly when the key is not 16 bytes long,
  \<open>SetupIV\<close> returns the IV-size error exactly when the IV is not 8 bytes long, and a
  \<open>SetupIV\<close> that returns an error leaves every field of the cipher as it was. No other
  operation fails: \<open>ProcessStream\<close> returns for every state and every buffer without an
  index out of range, and \<open>ResetCipher\<close> and \<open>Reset\<close> have no error result at all.
\<close>

theorem size_errors:
  "(NewCipher key = Inl e \<longleftrightarrow> length key \<noteq> 16 \<and> e = KeySizeError 1 (int (length key))) \<and>
   (snd (SetupIV s iv) = Some e \<longleftrightarrow> length iv \<noteq> 8 \<and> e = KeySizeError 2 (int (length iv))) \<and>
   (snd (SetupIV s iv) \<noteq> None \<longrightarrow> fst (SetupIV s iv) = s) \<and>
   (\<exists>res. ProcessStream s buf = Some res)"
proof (intro conjI)
  show "NewCipher key = Inl e \<longleftrightarrow> length key \<noteq> 16 \<and> e = KeySizeError 1 (int (length key))"
    using NewCipher_bad [of key] NewCipher_ok [of key] by (cases "length key = 16") auto
  show "snd (SetupIV s iv) = Some e \<longleftrightarrow> length iv \<noteq> 8 \<and> e = KeySizeError 2 (int (length iv))"
    using SetupIV_bad [of iv s] SetupIV_ok [of iv s] by (cases "length iv = 8") auto
  show "snd (SetupIV s iv) \<noteq> None \<longrightarrow> fst (SetupIV s iv) = s"
    using SetupIV_bad [of iv s] SetupIV_ok [of iv s] by (cases "length iv = 8") auto
  show "\<exists>res. ProcessStream s buf = Some res"
    using ProcessStream_props [of s buf] by auto
qed

theorem size_errors_witness:
  "snd (SetupIV (projr (NewCipher (replicate 16 0))) [1, 2, 3]) \<noteq> None \<and>
   fst (SetupIV (projr (NewCipher (replicate 16 0))) [1, 2, 3]) = projr (NewCipher (replicate 16 0)) \<and>
   NewCipher [1, 2, 3] = Inl (KeySizeError 1 3)"
proof -
  have bad: "snd (SetupIV (projr (NewCipher (replicate 16 0))) [1, 2, 3]) \<noteq> None"
    by (simp add: SetupIV_def)
  from size_errors [of "[1, 2, 3]" "KeySizeError 1 3" "projr (NewCipher (replicate 16 0))" "[1, 2, 3]" "[]"]
    bad
  show ?thesis by simp
qed

text \<open>
  C7. IV setup is idempotent. For every cipher state and every 8-byte IV, a second
  \<open>SetupIV\<close> with the same IV gives the state the first one gave; and two states that
  agree on the master snapshot \<open>cx\<close>, \<open>cc\<close>, \<open>ccarry\<close> get the same \<open>x\<close>, \<open>c\<close> and
  \<open>carry\<close> from \<open>SetupIV\<close>, whatever their live \<open>x\<close>, \<open>c\<close> and \<open>carry\<close> were: the
  counter is derived from \<open>cc\<close>, and \<open>x\<close> and \<open>carry\<close> are restored from \<open>cx\<close> and
  \<open>ccarry\<close>.
\<close>

theorem SetupIV_idempotent:
  assumes "length iv = 8"
  shows "fst (SetupIV (fst (SetupIV s iv)) iv) = fst (SetupIV s iv) \<and>
         (\<forall>t. cx t = cx s \<and> cc t = cc s \<and> ccarry t = ccarry s \<longrightarrow>
              x (fst (SetupIV t iv)) = x (fst (SetupIV s iv)) \<and>
              c (fst (SetupIV t iv)) = c (fst (SetupIV s iv)) \<and>
              carry (fst (SetupIV t iv)) = carry (fst (SetupIV s iv)))"
proof
  show "fst (SetupIV (fst (SetupIV s iv)) iv) = fst (SetupIV s iv)"
    using SetupIV_master [of "fst (SetupIV s iv)" s iv] assms by (simp add: SetupIV_frame)
  show "\<forall>t. cx t = cx s \<and> cc t = cc s \<and> ccarry t = ccarry s \<longrightarrow>
              x (fst (SetupIV t iv)) = x (fst (SetupIV s iv)) \<and>
              c (fst (SetupIV t iv)) = c (fst (SetupIV s iv)) \<and>
              carry (fst (SetupIV t iv)) = carry (fst (SetupIV s iv))"
  proof (intro allI impI)
    fix t :: Cipher assume "cx t = cx s \<and> cc t = cc s \<and> ccarry t = ccarry s"
    then have "fst (SetupIV t iv) = (fst (SetupIV s iv))\<lparr>r := r t\<rparr>"
      using SetupIV_live [of t s iv] assms by simp
    then show "x (fst (SetupIV t iv)) = x (fst (SetupIV s iv)) \<and>
               c (fst (SetupIV t iv)) = c (fst (SetupIV s iv)) \<and>
               carry (fst (SetupIV t iv)) = carry (fst (SetupIV s iv))"
      by simp
  qed
qed

theorem SetupIV_idempotent_witness:
  "length (replicate 8 (0::byte)) = 8 \<and>
   fst (SetupIV (fst (SetupIV zero_Cipher (replicate 8 0))) (replicate 8 0))
     = fst (SetupIV zero_Cipher (replicate 8 0)) \<and>
   cx (zero_Cipher\<lparr>x := Arr8 1 2 3 4 5 6 7 8, carry := True\<rparr>) = cx zero_Cipher \<and>
   cc (zero_Cipher\<lparr>x := Arr8 1 2 3 4 5 6 7 8, carry := True\<rparr>) = cc zero_Cipher \<and>
   ccarry (zero_Cipher\<lparr>x := Arr8 1 2 3 4 5 6 7 8, carry := True\<rparr>) = ccarry zero_Cipher \<and>
   x (fst (SetupIV (zero_Cipher\<lparr>x := Arr8 1 2 3 4 5 6 7 8, carry := True\<rparr>) (replicate 8 0)))
     = x (fst (SetupIV zero_Cipher (replicate 8 0)))"
proof -
  let ?t = "zero_Cipher\<lparr>x := Arr8 1 2 3 4 5 6 7 8, carry := True\<rparr>"
  have len: "length (replicate 8 (0::byte)) = 8" by simp
  have master: "cx ?t = cx zero_Cipher \<and> cc ?t = cc zero_Cipher \<and> ccarry ?t = ccarry zero_Cipher"
    by simp
  note inst = SetupIV_idempotent [OF len, of zero_Cipher]
  from inst have once: "fst (SetupIV (fst (SetupIV zero_Cipher (replicate 8 0))) (replicate 8 0))
     = fst (SetupIV zero_Cipher (replicate 8 0))" by (rule conjunct1)
  from inst have "cx ?t = cx zero_Cipher \<and> cc ?t = cc zero_Cipher \<and> ccarry ?t = ccarry zero_Cipher \<longrightarrow>
              x (fst (SetupIV ?t (replicate 8 0))) = x (fst (SetupIV zero_Cipher (replicate 8 0))) \<and>
              c (fst (SetupIV ?t (replicate 8 0))) = c (fst (SetupIV zero_Cipher (replicate 8 0))) \<and>
              carry (fst (SetupIV ?t (replicate 8 0))) = carry (fst (SetupIV zero_Cipher (replicate 8 0)))"
    by (rule conjunct2 [THEN spec])
  with master have live: "x (fst (SetupIV ?t (replicate 8 0))) = x (fst (SetupIV zero_Cipher (replicate 8 0)))"
    by blast
  from len once master live show ?thesis by blast
qed

text \<open>
  C1. Streaming equivalence asks that a message processed in chunks gives the output of
  one call on the whole message. From the cipher of the all-zero key, three zero bytes in
  one call give the first three keystream bytes \<open>02 F7 4A\<close>; in three calls of one byte
  they give \<open>02 F7 A7\<close>: the first call leaves 15 leftover bytes, the second uses one of
  them and leaves none, so the third starts a new block.
\<close>

theorem chunks_differ_from_one_call:
  "map_option snd (ProcessStream (projr (NewCipher (replicate 16 0))) [0, 0, 0])
     = Some [0x02, 0xF7, 0x4A] \<and>
   map_option snd (ProcessStream_chunks (projr (NewCipher (replicate 16 0))) [[0], [0], [0]])
     = Some [0x02, 0xF7, 0xA7] \<and>
   map_option (\<lambda>p. r (fst p)) (ProcessStream_chunks (projr (NewCipher (replicate 16 0))) [[0]])
     = Some [0xF7, 0x4A, 0x1C, 0x26, 0x45, 0x6B, 0xF5, 0xEC, 0xD6, 0xA5, 0x36, 0xF0, 0x54, 0x57, 0xB1] \<and>
   map_option (\<lambda>p. r (fst p)) (ProcessStream_chunks (projr (NewCipher (replicate 16 0))) [[0], [0]])
     = Some []"
  unfolding NewCipher_zero_key sum.sel
  by code_simp

text \<open>
  C2. A call with an empty buffer is to leave the leftover bytes alone. After one byte has
  been processed with the all-zero key, 15 leftover bytes are stored; the call with the
  empty buffer returns and the leftover bytes are gone.
\<close>

theorem empty_buffer_drops_pending:
  "(case ProcessStream (projr (NewCipher (replicate 16 0))) [0] of
      None \<Rightarrow> False
    | Some (s, out) \<Rightarrow>
        r s = [0xF7, 0x4A, 0x1C, 0x26, 0x45, 0x6B, 0xF5, 0xEC, 0xD6, 0xA5, 0x36, 0xF0, 0x54, 0x57, 0xB1]
        \<and> map_option (\<lambda>p. r (fst p)) (ProcessStream s []) = Some [])"
  unfolding NewCipher_zero_key sum.sel
  by code_simp

text \<open>
  C3. \<open>Reset\<close> is to zero the eight words of \<open>x\<close>, \<open>c\<close>, \<open>cx\<close> and \<open>cc\<close> and to clear
  both carry flags. On the cipher of the all-zero key, whose master carry flag \<open>ccarry\<close>
  is set, it zeroes the four arrays and clears \<open>carry\<close>, and \<open>ccarry\<close> is still set
  afterwards: the last statement of \<open>Reset\<close> assigns \<open>carry\<close> twice and \<open>ccarry\<close> never.
\<close>

theorem Reset_leaves_ccarry:
  "ccarry (Reset (projr (NewCipher (replicate 16 0)))) = True \<and>
   carry (Reset (projr (NewCipher (replicate 16 0)))) = False \<and>
   x (Reset (projr (NewCipher (replicate 16 0)))) = zero8 \<and>
   c (Reset (projr (NewCipher (replicate 16 0)))) = zero8 \<and>
   cx (Reset (projr (NewCipher (replicate 16 0)))) = zero8 \<and>
   cc (Reset (projr (NewCipher (replicate 16 0)))) = zero8"
  by (simp add: NewCipher_zero_key Reset_eq zero_key_Cipher_def)

text \<open>
  C4 as the code has it. The eight counter words are updated in the order 0..7; word \<open>i\<close>
  becomes \<open>c[i] + counter_const i + carry_in\<close>, where the carry-in of word 0 is the carry
  flag of the last round and that of a later word is 1 exactly when the word before it,
  just computed, is below its value before the round; the new carry flag says whether word
  7 is below its old value. The constants are three, \<open>0x4D34D34D\<close>, \<open>0xD34D34D3\<close> and
  \<open>0x34D34D34\<close>, repeating with period 3 over the index, and the third is even.
\<close>

theorem counter_update:
  "(\<forall>i<8. idx (c (rabbitNext s)) i = idx (c s) i + counter_const i + carry_in s i) \<and>
   carry (rabbitNext s) = (idx (c (rabbitNext s)) 7 < idx (c s) 7) \<and>
   counter_const 0 = 0x4D34D34D \<and> counter_const 1 = 0xD34D34D3 \<and> counter_const 2 = 0x34D34D34 \<and>
   (\<forall>i. counter_const (i + 3) = counter_const i) \<and> even (counter_const 2)"
proof (intro conjI allI impI)
  fix i :: nat assume "i < 8"
  then have "i = 0 \<or> i = 1 \<or> i = 2 \<or> i = 3 \<or> i = 4 \<or> i = 5 \<or> i = 6 \<or> i = 7"
    by (rule below_8)
  then show "idx (c (rabbitNext s)) i = idx (c s) i + counter_const i + carry_in s i"
    by (elim disjE) (simp_all add: rabbitNext_c Let_def counter_const_def carry_in_def)
next
  show "carry (rabbitNext s) = (idx (c (rabbitNext s)) 7 < idx (c s) 7)"
    by (rule rabbitNext_c)
qed (simp_all add: counter_const_def)

theorem counter_update_witness:
  "(2::nat) < 8 \<and>
   idx (c (rabbitNext zero_Cipher)) 2 = idx (c zero_Cipher) 2 + counter_const 2 + carry_in zero_Cipher 2"
  using counter_update [of zero_Cipher] by simp

text \<open>
  C4 as the specification words it (two constants alternated by the parity of the index)
  fails on the first round of the key schedule of the all-zero key, whose state is the
  zero value of the struct: words 0 and 1 fix the two constants, and word 2, of even
  index, is not word 0's constant but \<open>0x34D34D34\<close>, an even number.
\<close>

theorem parity_constants_counterexample:
  "idx (c (rabbitNext zero_Cipher)) 0 = spec_counter_word 0x4D34D34D 0xD34D34D3 zero_Cipher 0 \<and>
   idx (c (rabbitNext zero_Cipher)) 1 = spec_counter_word 0x4D34D34D 0xD34D34D3 zero_Cipher 1 \<and>
   idx (c (rabbitNext zero_Cipher)) 2 \<noteq> spec_counter_word 0x4D34D34D 0xD34D34D3 zero_Cipher 2 \<and>
   idx (c (rabbitNext zero_Cipher)) 2 - idx (c zero_Cipher) 2 - carry_in zero_Cipher 2 = 0x34D34D34 \<and>
   even (0x34D34D34 :: u32)"
  by (simp add: rabbitNext_c Let_def spec_counter_word_def carry_in_def zero_Cipher_def zero8_def
        booltoi_def)

text \<open>No choice of two constants fits that round, odd or not.\<close>

lemma no_parity_constants:
  "\<not> (\<exists>ka kb. \<forall>i<8. idx (c (rabbitNext zero_Cipher)) i = spec_counter_word ka kb zero_Cipher i)"
proof
  assume "\<exists>ka kb. \<forall>i<8. idx (c (rabbitNext zero_Cipher)) i = spec_counter_word ka kb zero_Cipher i"
  then obtain ka kb where
    a: "\<forall>i<8. idx (c (rabbitNext zero_Cipher)) i = spec_counter_word ka kb zero_Cipher i" by blast
  from a have "idx (c (rabbitNext zero_Cipher)) 0 = spec_counter_word ka kb zero_Cipher 0" by simp
  then have ka: "ka = 0x4D34D34D"
    by (simp add: rabbitNext_c Let_def spec_counter_word_def carry_in_def zero_Cipher_def zero8_def
          booltoi_def)
  from a have "idx (c (rabbitNext zero_Cipher)) 2 = spec_counter_word ka kb zero_Cipher 2" by simp
  with ka show False
    by (simp add: rabbitNext_c Let_def spec_counter_word_def carry_in_def zero_Cipher_def zero8_def
          booltoi_def)
qed

text \<open>
  C8. The leftover-keystream buffer \<open>r\<close> is empty in the state \<open>NewCipher\<close> returns, and
  after any sequence of \<open>SetupIV\<close>, \<open>ProcessStream\<close>, \<open>ResetCipher\<close> and \<open>Reset\<close>
  operations from there (each of which returns) it holds fewer than 16 bytes. Of the four
  operations only \<open>ProcessStream\<close> writes \<open>r\<close>: the other three leave it as it is.
\<close>

theorem pending_invariant:
  assumes "NewCipher key = Inr s0"
  shows "r s0 = [] \<and> (\<exists>s. run_ops s0 ops = Some s \<and> length (r s) < 16) \<and>
         (\<forall>t iv. r (fst (SetupIV t iv)) = r t \<and> r (ResetCipher t) = r t \<and> r (Reset t) = r t)"
proof -
  from assms have "length key = 16"
    using NewCipher_bad [of key] by (cases "length key = 16") auto
  from NewCipher_ok [OF this] assms have e: "r s0 = []" by auto
  then have "length (r s0) < 16" by simp
  from run_ops_inv [OF this, of ops] e show ?thesis
    by (simp add: SetupIV_frame ResetCipher_eq Reset_eq)
qed

text \<open>
  C10. \<open>SetupIV\<close> with an 8-byte IV leaves the leftover-keystream buffer \<open>r\<close> as it is,
  so the next \<open>ProcessStream\<close> XORs the leftover bytes, which were generated before the
  IV was set, into the first bytes of its buffer: byte \<open>q\<close> of the output is byte \<open>q\<close> of
  the buffer XOR byte \<open>q\<close> of the old \<open>r\<close>, for every \<open>q\<close> below both lengths.
\<close>

theorem SetupIV_keeps_pending:
  assumes "length iv = 8"
  shows "r (fst (SetupIV s iv)) = r s \<and>
         (\<exists>s' out. ProcessStream (fst (SetupIV s iv)) buf = Some (s', out) \<and>
            (\<forall>q < min (length (r s)) (length buf). out ! q = buf ! q XOR r s ! q))"
proof -
  from ProcessStream_props [of "fst (SetupIV s iv)" buf] obtain s' out where
    "ProcessStream (fst (SetupIV s iv)) buf = Some (s', out)"
    "\<forall>q < min (length (r (fst (SetupIV s iv)))) (length buf).
        out ! q = buf ! q XOR r (fst (SetupIV s iv)) ! q"
    by blast
  then show ?thesis by (auto simp: SetupIV_frame)
qed

end
